theory Spec2Isabelle
  imports Main "HOL-Library.Sublist" "HOL-Library.Monad_Syntax"
begin

section \<open>The legal-structure parser of \<open>model_law_processor.py\<close>\<close>

text \<open>
  The theory embeds the class \<open>ModelLawProcessor\<close>: \<open>normalize_text\<close>,
  the marker pattern \<open>TOKEN_PATTERN\<close> with \<open>finditer\<close>, \<open>classify_level\<close>,
  \<open>parse_legal_structure\<close> and \<open>collapse_table_of_contents\<close>.

  A Python \<open>str\<close> is modelled as a \<open>string\<close>; one \<open>char\<close> stands for one code point,
  so the model covers the texts whose code points are below 256, and \<open>length\<close> is
  Python's \<open>len\<close>.
\<close>

subsection \<open>Characters and strings\<close>

text \<open>
  The character classes on the code points below 256. \<open>is_space\<close> is both
  \<open>str.isspace\<close> (what \<open>strip\<close> removes) and the class \<open>\s\<close> of \<open>re\<close> on a
  \<open>str\<close> pattern; \<open>is_digit\<close> is \<open>\d\<close>, \<open>is_word\<close> is \<open>\w\<close>
  (alphanumeric in the Unicode sense, or the underscore); \<open>is_upper\<close>, \<open>is_lower\<close>
  and \<open>is_blank\<close> are the literal classes \<open>[A-Z]\<close>, \<open>[a-z]\<close> and \<open>[ \t]\<close>.
\<close>

definition is_space :: "char \<Rightarrow> bool" where
  "is_space c =
     (c \<in> set [CHR 0x09, CHR 0x0A, CHR 0x0B, CHR 0x0C, CHR 0x0D,
               CHR 0x1C, CHR 0x1D, CHR 0x1E, CHR 0x1F, CHR 0x20, CHR 0x85, CHR 0xA0])"

definition is_digit :: "char \<Rightarrow> bool" where
  "is_digit c = (c \<in> set ''0123456789'')"

definition is_upper :: "char \<Rightarrow> bool" where
  "is_upper c = (c \<in> set ''ABCDEFGHIJKLMNOPQRSTUVWXYZ'')"

definition is_lower :: "char \<Rightarrow> bool" where
  "is_lower c = (c \<in> set ''abcdefghijklmnopqrstuvwxyz'')"

definition is_word :: "char \<Rightarrow> bool" where
  "is_word c =
     (is_lower c \<or> is_upper c \<or> is_digit c \<or> c = CHR ''_'' \<or>
      (let n = (of_char c :: nat) in
         n \<in> set [170, 178, 179, 181, 185, 186] \<or> (188 \<le> n \<and> n \<le> 190) \<or>
         (192 \<le> n \<and> n \<le> 214) \<or> (216 \<le> n \<and> n \<le> 246) \<or> 248 \<le> n))"

definition is_blank :: "char \<Rightarrow> bool" where
  "is_blank c = (c = CHR '' '' \<or> c = CHR 0x09)"

text \<open>\<open>s.startswith(p)\<close>, \<open>s.strip()\<close> and the slice \<open>s[a:b]\<close> for \<open>0 \<le> a\<close>, \<open>0 \<le> b\<close>.\<close>

definition startswith :: "string \<Rightarrow> string \<Rightarrow> bool" where
  "startswith s p = (take (length p) s = p)"

definition lstrip :: "string \<Rightarrow> string" where
  "lstrip s = dropWhile is_space s"

definition rstrip :: "string \<Rightarrow> string" where
  "rstrip s = rev (dropWhile is_space (rev s))"

definition strip :: "string \<Rightarrow> string" where
  "strip s = rstrip (lstrip s)"

definition slice :: "string \<Rightarrow> nat \<Rightarrow> nat \<Rightarrow> string" where
  "slice s a b = take (b - a) (drop a s)"

text \<open>\<open>s.split("\n")\<close> and \<open>sep.join(xs)\<close>.\<close>

fun split_nl :: "string \<Rightarrow> string list" where
  "split_nl [] = [[]]"
| "split_nl (c # cs) =
     (if c = CHR 0x0A then [] # split_nl cs
      else (case split_nl cs of [] \<Rightarrow> [[c]] | l # ls \<Rightarrow> (c # l) # ls))"

fun join :: "string \<Rightarrow> string list \<Rightarrow> string" where
  "join sep [] = []"
| "join sep [x] = x"
| "join sep (x # y # ys) = x @ sep @ join sep (y # ys)"

subsection \<open>Regular expressions\<close>

text \<open>
  A pattern is a function from the text at the current position to the text that is
  left after the match, \<open>None\<close> when it does not match there; a sequence of patterns
  is their composition with \<open>\<bind>\<close>. \<open>lit\<close> is a literal, \<open>one_of\<close> a
  character class, \<open>many\<close> and \<open>many1\<close> the greedy \<open>*\<close> and \<open>+\<close> of a class,
  \<open>ahead\<close> the lookahead \<open>(?=..)\<close>, \<open>caret\<close> the anchor \<open>^\<close> under \<open>(?m)\<close>
  (its argument says whether the position is the start of the text or follows a
  newline) and \<open>orelse\<close> the ordered alternation.

  \<open>many\<close> and \<open>many1\<close> take the longest run and never give a character back. In each
  pattern of this program the token that follows a repetition starts with a character
  outside the repeated class (\<open>S\<close>, a capital, \<open>(\<close> after \<open>\s*\<close>; a digit or a
  capital after \<open>\s+\<close>; \<open>.\<close> or \<open>)\<close> after \<open>\d+\<close>; \<open>-\<close> after \<open>\w+\<close>), so a
  shorter run, which the backtracking matcher of \<open>re\<close> would try next, is followed by
  a character of the class and fails as well.
\<close>

definition lit :: "string \<Rightarrow> string \<Rightarrow> string option" where
  "lit p s = (if startswith s p then Some (drop (length p) s) else None)"

definition one_of :: "(char \<Rightarrow> bool) \<Rightarrow> string \<Rightarrow> string option" where
  "one_of P s = (case s of [] \<Rightarrow> None | c # cs \<Rightarrow> if P c then Some cs else None)"

definition many :: "(char \<Rightarrow> bool) \<Rightarrow> string \<Rightarrow> string option" where
  "many P s = Some (dropWhile P s)"

definition many1 :: "(char \<Rightarrow> bool) \<Rightarrow> string \<Rightarrow> string option" where
  "many1 P s = (case s of [] \<Rightarrow> None | c # cs \<Rightarrow> if P c then Some (dropWhile P cs) else None)"

definition ahead :: "(string \<Rightarrow> string option) \<Rightarrow> string \<Rightarrow> string option" where
  "ahead m s = (case m s of None \<Rightarrow> None | Some r \<Rightarrow> Some s)"

definition caret :: "bool \<Rightarrow> string \<Rightarrow> string option" where
  "caret bol s = (if bol then Some s else None)"

definition orelse :: "'a option \<Rightarrow> 'a option \<Rightarrow> 'a option" where
  "orelse a b = (case a of Some r \<Rightarrow> Some r | None \<Rightarrow> b)"

definition fullmatch :: "(string \<Rightarrow> string option) \<Rightarrow> string \<Rightarrow> bool" where
  "fullmatch m s = (m s = Some [])"

text \<open>
  The four marker shapes, shared by the patterns of the program:
  \<open>Section\s+\d+\.\<close>, \<open>[A-Z]\.\<close>, \<open>\(\d+\)\<close> and \<open>\([a-z]\)\<close>.
\<close>

definition rx_section :: "string \<Rightarrow> string option" where
  "rx_section s = lit ''Section'' s \<bind> many1 is_space \<bind> many1 is_digit \<bind> lit ''.''"

definition rx_letter :: "string \<Rightarrow> string option" where
  "rx_letter s = one_of is_upper s \<bind> lit ''.''"

definition rx_number :: "string \<Rightarrow> string option" where
  "rx_number s = lit ''('' s \<bind> many1 is_digit \<bind> lit '')''"

definition rx_lower :: "string \<Rightarrow> string option" where
  "rx_lower s = lit ''('' s \<bind> one_of is_lower \<bind> lit '')''"

subsection \<open>The marker tokenizer\<close>

text \<open>
  \<open>TOKEN_PATTERN\<close>, tried at one position:
  \<open>(?m)^\s*(Section\s+\d+\.)|^\s*([A-Z]\.)|^\s*(\(\d+\))\s+(?=[A-Z])|^\s*(\([a-z]\))\s+(?=[A-Z])\<close>.
\<close>

definition TOKEN_PATTERN :: "bool \<Rightarrow> string \<Rightarrow> string option" where
  "TOKEN_PATTERN bol s =
     orelse (caret bol s \<bind> many is_space \<bind> rx_section)
    (orelse (caret bol s \<bind> many is_space \<bind> rx_letter)
    (orelse (caret bol s \<bind> many is_space \<bind> rx_number \<bind> many1 is_space
               \<bind> ahead (one_of is_upper))
            (caret bol s \<bind> many is_space \<bind> rx_lower \<bind> many1 is_space
               \<bind> ahead (one_of is_upper))))"

text \<open>
  \<open>TOKEN_PATTERN.finditer(text)\<close>: the matches from left to right, each as the pair
  \<open>(match.start(), match.group())\<close>. \<open>finditer_from bol pos s\<close> scans the rest \<open>s\<close>
  of the text from offset \<open>pos\<close>; after a match the scan goes on where the match ended,
  after a failure one character further. A match of this pattern is never empty
  (lemma \<open>TOKEN_PATTERN_shorter\<close>), so the last branch of the test is never taken.
\<close>

function finditer_from :: "bool \<Rightarrow> nat \<Rightarrow> string \<Rightarrow> (nat \<times> string) list" where
  "finditer_from bol pos s =
     (case TOKEN_PATTERN bol s of
        Some rest \<Rightarrow>
          (if length rest < length s
           then (let n = length s - length rest
                 in (pos, take n s) # finditer_from (last (take n s) = CHR 0x0A) (pos + n) rest)
           else [])
      | None \<Rightarrow>
          (case s of [] \<Rightarrow> [] | c # cs \<Rightarrow> finditer_from (c = CHR 0x0A) (Suc pos) cs))"
  by pat_completeness auto
termination
  by (relation "measure (\<lambda>(bol, pos, s). length s)") auto

definition finditer :: "string \<Rightarrow> (nat \<times> string) list" where
  "finditer s = finditer_from True 0 s"

subsection \<open>classify_level\<close>

datatype error = IndexError

text \<open>
  The result of a call is \<open>Inr\<close> of the value returned or \<open>Inl\<close> of the exception
  raised. \<open>classify_level\<close> has no \<open>raise\<close>: its last line is \<open>return 0\<close>.
\<close>

definition classify_level :: "string \<Rightarrow> error + nat" where
  "classify_level token0 =
     (let token = strip token0 in
      if startswith token ''Section'' then Inr 1
      else if fullmatch rx_letter token then Inr 2
      else if fullmatch rx_number token then Inr 3
      else if fullmatch rx_lower token then Inr 4
      else Inr 0)"

text \<open>
  The four shapes of a marker in words: a string that starts with \<open>Section\<close>, a
  capital letter and a period, digits in parentheses, a small letter in parentheses.
\<close>

definition shape_letter :: "string \<Rightarrow> bool" where
  "shape_letter t = (case t of [c, d] \<Rightarrow> is_upper c \<and> d = CHR ''.'' | _ \<Rightarrow> False)"

definition shape_number :: "string \<Rightarrow> bool" where
  "shape_number t =
     (case t of
        [] \<Rightarrow> False
      | c # r \<Rightarrow> c = CHR ''('' \<and> r \<noteq> [] \<and> last r = CHR '')''
                 \<and> butlast r \<noteq> [] \<and> list_all is_digit (butlast r))"

definition shape_lower :: "string \<Rightarrow> bool" where
  "shape_lower t =
     (case t of [a, c, b] \<Rightarrow> a = CHR ''('' \<and> is_lower c \<and> b = CHR '')'' | _ \<Rightarrow> False)"

definition known_shape :: "string \<Rightarrow> bool" where
  "known_shape t = (startswith t ''Section'' \<or> shape_letter t \<or> shape_number t \<or> shape_lower t)"

subsection \<open>parse_legal_structure\<close>

text \<open>
  A node is the dictionary \<open>{"marker": .., "text": .., "children": [..]}\<close>; the field
  \<open>text\<close> is the selector \<open>text_of\<close>.
\<close>

datatype node = Node (marker: string) (text_of: string) (children: "node list")

text \<open>
  While the tree is built a node dictionary is shared: it is an element of \<open>root\<close> or
  of its parent's \<open>children\<close> list and, as long as it is open, of \<open>stack\<close>, and
  \<open>stack[-1]["children"].append(node)\<close> changes it in place. The model keeps the
  dictionaries in a store: a cell per dictionary, its address the index in \<open>heap\<close>,
  the \<open>children\<close> lists, \<open>root\<close> and \<open>stack\<close> holding addresses. Cells are
  allocated in the order in which the loop creates the dictionaries.
\<close>

datatype cell = Cell (c_marker: string) (c_text: string) (c_children: "nat list")

record state =
  heap :: "cell list"
  root :: "nat list"
  stack :: "nat list"

text \<open>
  \<open>while len(stack) >= level: stack.pop()\<close>; \<open>pop\<close> on the empty list raises
  \<open>IndexError\<close>.
\<close>

function pop_while :: "nat \<Rightarrow> nat list \<Rightarrow> error + nat list" where
  "pop_while level stk =
     (if length stk \<ge> level
      then (if stk = [] then Inl IndexError else pop_while level (butlast stk))
      else Inr stk)"
  by pat_completeness auto
termination
  by (relation "measure (\<lambda>(level, stk). length stk)") auto

text \<open>\<open>heap[p]["children"].append(a)\<close>.\<close>

definition append_child :: "nat \<Rightarrow> nat \<Rightarrow> cell list \<Rightarrow> cell list" where
  "append_child p a h =
     h[p := Cell (c_marker (h ! p)) (c_text (h ! p)) (c_children (h ! p) @ [a])]"

text \<open>
  The second half of the loop body: allocate the node, pop, attach it to the top of the
  stack or to \<open>root\<close>, push it.
\<close>

definition add_node :: "string \<Rightarrow> string \<Rightarrow> nat \<Rightarrow> state \<Rightarrow> error + state" where
  "add_node token content level st =
     (let a = length (heap st);
          h = heap st @ [Cell token content []]
      in case pop_while level (stack st) of
           Inl e \<Rightarrow> Inl e
         | Inr stk \<Rightarrow>
             Inr (if stk \<noteq> []
                  then \<lparr>heap = append_child (last stk) a h, root = root st, stack = stk @ [a]\<rparr>
                  else \<lparr>heap = h, root = root st @ [a], stack = stk @ [a]\<rparr>))"

text \<open>
  \<open>for i, match in enumerate(matches)\<close>, over the matches that are left: \<open>m\<close> is
  \<open>matches[i]\<close> and the head of \<open>ms\<close> is \<open>matches[i + 1]\<close>.
\<close>

fun parse_loop :: "string \<Rightarrow> (nat \<times> string) list \<Rightarrow> state \<Rightarrow> error + state" where
  "parse_loop txt [] st = Inr st"
| "parse_loop txt (m # ms) st =
     (let token = strip (snd m);
          start = fst m;
          end = (case ms of [] \<Rightarrow> length txt | m' # _ \<Rightarrow> fst m');
          content = strip (slice txt start end)
      in case classify_level token of
           Inl e \<Rightarrow> Inl e
         | Inr level \<Rightarrow>
             (case add_node token content level st of
                Inl e \<Rightarrow> Inl e
              | Inr st' \<Rightarrow> parse_loop txt ms st'))"

definition parse_state :: "string \<Rightarrow> error + state" where
  "parse_state txt = parse_loop txt (finditer txt) \<lparr>heap = [], root = [], stack = []\<rparr>"

text \<open>
  The tree that an address stands for. The children of a cell are cells allocated after
  it (lemmas \<open>add_node_ok\<close> and \<open>kids_filter\<close>), so the filter keeps every child of a heap that the
  parser builds; it makes the unfolding terminate on any heap.
\<close>

function reify :: "cell list \<Rightarrow> nat \<Rightarrow> node" where
  "reify h a =
     Node (c_marker (h ! a)) (c_text (h ! a))
          (map (reify h) (filter (\<lambda>c. a < c \<and> c < length h) (c_children (h ! a))))"
  by pat_completeness auto
termination
  by (relation "measure (\<lambda>(h, a). length h - a)") auto

definition parse_legal_structure :: "string \<Rightarrow> error + node list" where
  "parse_legal_structure txt =
     (case parse_state txt of
        Inl e \<Rightarrow> Inl e
      | Inr st \<Rightarrow> Inr (map (reify (heap st)) (root st)))"

subsection \<open>collapse_table_of_contents\<close>

text \<open>
  The test of \<open>collapse_table_of_contents\<close>:
  \<open>node["marker"].startswith("Section") and len(node["children"]) == 0
     and len(node["text"]) < 200\<close>.
\<close>

definition is_flat_section :: "node \<Rightarrow> bool" where
  "is_flat_section n =
     (startswith (marker n) ''Section'' \<and> length (children n) = 0 \<and> length (text_of n) < 200)"

text \<open>
  The \<open>for i, node in enumerate(nodes)\<close> loop. The state is the pair
  \<open>(toc_entries, body_start_index)\<close>; the \<open>break\<close> leaves the loop with
  \<open>body_start_index = i\<close>, and a loop that runs to the end leaves \<open>body_start_index\<close> as
  it was.
\<close>

fun toc_loop :: "nat \<Rightarrow> node list \<Rightarrow> node list \<times> nat \<Rightarrow> node list \<times> nat" where
  "toc_loop i [] (toc_entries, body_start_index) = (toc_entries, body_start_index)"
| "toc_loop i (n # ns) (toc_entries, body_start_index) =
     (if is_flat_section n then toc_loop (Suc i) ns (toc_entries @ [n], body_start_index)
      else (toc_entries, i))"

definition collapse_table_of_contents :: "node list \<Rightarrow> node list" where
  "collapse_table_of_contents nodes =
     (case toc_loop 0 nodes ([], 0) of
        (toc_entries, body_start_index) \<Rightarrow>
          if toc_entries \<noteq> []
          then [Node ''TOC'' ''Table of Contents'' toc_entries] @ drop body_start_index nodes
          else nodes)"

subsection \<open>normalize_text\<close>

text \<open>
  \<open>re.sub(r"(\w+)-\n(\w+)", r"\1\2", text)\<close>. \<open>hyphen_match\<close> is the pattern at one
  position: it returns the replacement, the two groups one after the other, and the text
  after the match. \<open>dehyphenate\<close> goes through the text: after a match it goes on where
  the match ended, otherwise it copies one character. A match is never empty, so the
  last branch of the test is never taken.
\<close>

definition hyphen_match :: "string \<Rightarrow> (string \<times> string) option" where
  "hyphen_match s =
     (case many1 is_word s of
        None \<Rightarrow> None
      | Some r1 \<Rightarrow>
          (case lit [CHR ''-'', CHR 0x0A] r1 of
             None \<Rightarrow> None
           | Some r2 \<Rightarrow>
               (case many1 is_word r2 of
                  None \<Rightarrow> None
                | Some r3 \<Rightarrow> Some (takeWhile is_word s @ takeWhile is_word r2, r3))))"

function dehyphenate :: "string \<Rightarrow> string" where
  "dehyphenate s =
     (case hyphen_match s of
        Some (repl, rest) \<Rightarrow> (if length rest < length s then repl @ dehyphenate rest else [])
      | None \<Rightarrow> (case s of [] \<Rightarrow> [] | c # cs \<Rightarrow> c # dehyphenate cs))"
  by pat_completeness auto
termination
  by (relation "measure length") auto

text \<open>
  \<open>re.match(r"^(Section\s+\d+\.|[A-Z]\.|\(\d+\)|\([a-z]\))", stripped)\<close>, as a truth
  value.
\<close>

definition line_marker :: "string \<Rightarrow> bool" where
  "line_marker s =
     (orelse (rx_section s) (orelse (rx_letter s) (orelse (rx_number s) (rx_lower s))) \<noteq> None)"

text \<open>The loop over the lines, with the list \<open>rebuilt\<close> as its state.\<close>

fun rebuild :: "string list \<Rightarrow> string list \<Rightarrow> string list" where
  "rebuild [] rebuilt = rebuilt"
| "rebuild (line # lines) rebuilt =
     (let stripped = strip line in
      if stripped = [] then rebuild lines rebuilt
      else if line_marker stripped then rebuild lines (rebuilt @ [CHR 0x0A # stripped])
      else if rebuilt \<noteq> [] then rebuild lines (butlast rebuilt @ [last rebuilt @ '' '' @ stripped])
      else rebuild lines (rebuilt @ [stripped]))"

text \<open>\<open>re.sub(r"[ \t]+", " ", text)\<close>.\<close>

function collapse_blanks :: "string \<Rightarrow> string" where
  "collapse_blanks [] = []"
| "collapse_blanks (c # cs) =
     (if is_blank c then CHR '' '' # collapse_blanks (dropWhile is_blank cs)
      else c # collapse_blanks cs)"
  by pat_completeness auto
termination
  by (relation "measure length") (auto simp: length_dropWhile_le le_imp_less_Suc)

definition normalize_text :: "string \<Rightarrow> string" where
  "normalize_text txt =
     strip (collapse_blanks (join [CHR 0x0A] (rebuild (split_nl (dehyphenate txt)) [])))"

subsection \<open>The pipeline\<close>

text \<open>
  \<open>process\<close> after \<open>extract_text\<close>: \<open>structure_of\<close> is \<open>parse_legal_structure\<close>
  followed by \<open>collapse_table_of_contents\<close>, \<open>process\<close> runs it on the normalized
  text.
\<close>

definition structure_of :: "string \<Rightarrow> error + node list" where
  "structure_of clean_text =
     (case parse_legal_structure clean_text of
        Inl e \<Rightarrow> Inl e
      | Inr s \<Rightarrow> Inr (collapse_table_of_contents s))"

definition process :: "string \<Rightarrow> error + node list" where
  "process raw_text = structure_of (normalize_text raw_text)"

subsection \<open>Notions used in the statements and proofs\<close>














text \<open>
  Notions for the de-hyphenation step: a text starts with a word character, ends with
  one, or ends with a word character followed by a hyphen and a newline. The text \<open>p\<close>
  can be cut from the text \<open>x\<close> that follows it when no word and no occurrence of the
  pattern lies across the place where they meet.
\<close>

definition starts_word :: "string \<Rightarrow> bool" where
  "starts_word s = (case s of [] \<Rightarrow> False | c # r \<Rightarrow> is_word c)"

definition ends_word :: "string \<Rightarrow> bool" where
  "ends_word s = starts_word (rev s)"

definition ends_hyphenated :: "string \<Rightarrow> bool" where
  "ends_hyphenated p =
     (case rev p of
        n # h # r \<Rightarrow> n = CHR 0x0A \<and> h = CHR ''-'' \<and> starts_word r
      | _ \<Rightarrow> False)"

definition cut_ok :: "string \<Rightarrow> string \<Rightarrow> bool" where
  "cut_ok p x =
     (\<not> (ends_word p \<and> starts_word x)
      \<and> \<not> (ends_word p \<and> startswith x [CHR ''-'', CHR 0x0A] \<and> starts_word (drop 2 x))
      \<and> \<not> (p \<noteq> [] \<and> last p = CHR ''-'' \<and> ends_word (butlast p)
             \<and> startswith x [CHR 0x0A] \<and> starts_word (drop 1 x))
      \<and> \<not> (ends_hyphenated p \<and> starts_word x))"

subsection \<open>Inputs of the scenarios\<close>

text \<open>Scenario A of the specification.\<close>

definition scenario_A :: string where
  "scenario_A =
     ''Section 1. Short summary.\<newline>Section 2. Another short one.\<newline>Section 3. ''
       @ replicate 250 CHR ''x'' @ '' (1) First point (a) Sub point.''"

text \<open>
  What the specification expects of scenario A: a TOC node with the two children
  Section 1 and Section 2, then a node for Section 3 with a child \<open>(1)\<close> of level 3
  that has a child \<open>(a)\<close> of level 4.
\<close>

definition scenario_A_expected :: "error + node list \<Rightarrow> bool" where
  "scenario_A_expected r =
     (case r of
        Inr [toc, s3] \<Rightarrow>
          marker toc = ''TOC'' \<and> map marker (children toc) = [''Section 1.'', ''Section 2.'']
          \<and> marker s3 = ''Section 3.''
          \<and> list_ex (\<lambda>c. marker c = ''(1)'' \<and> classify_level (marker c) = Inr 3
                 \<and> list_ex (\<lambda>d. marker d = ''(a)'' \<and> classify_level (marker d) = Inr 4)
                      (children c))
               (children s3)
      | _ \<Rightarrow> False)"


text \<open>A section with numbered paragraphs and no lettered subsection in between.\<close>

definition skipped_level_text :: string where
  "skipped_level_text =
     ''Section 3. Title\<newline>(1) First point\<newline>(a) Sub point\<newline>(2) Second point''"


section \<open>Properties\<close>

text \<open>
  The equations of the functions defined by general recursion are unfolded by hand.
\<close>

declare dehyphenate.simps [simp del]
declare finditer_from.simps [simp del]
declare pop_while.simps [simp del]
declare reify.simps [simp del]

subsection \<open>The table-of-contents pass\<close>

lemma toc_loop_entries:
  "fst (toc_loop i ns (acc, b)) = acc @ takeWhile is_flat_section ns"
  by (induction ns arbitrary: i acc) auto

lemma toc_loop_index:
  "snd (toc_loop i ns (acc, b)) =
     (if list_all is_flat_section ns then b else i + length (takeWhile is_flat_section ns))"
  by (induction ns arbitrary: i acc) auto

lemma collapse_unfold:
  "collapse_table_of_contents ns =
     (if takeWhile is_flat_section ns \<noteq> []
      then Node ''TOC'' ''Table of Contents'' (takeWhile is_flat_section ns)
           # (if list_all is_flat_section ns then ns else dropWhile is_flat_section ns)
      else ns)"
proof -
  obtain t b where tb: "toc_loop 0 ns ([], 0) = (t, b)"
    by (cases "toc_loop 0 ns ([], 0)")
  have t: "t = takeWhile is_flat_section ns"
    using toc_loop_entries [of 0 ns "[]" 0] tb by simp
  have b: "b = (if list_all is_flat_section ns then 0 else length (takeWhile is_flat_section ns))"
    using toc_loop_index [of 0 ns "[]" 0] tb by simp
  show ?thesis
    by (simp add: collapse_table_of_contents_def tb t b dropWhile_eq_drop)
qed

lemma toc_node_not_flat: "\<not> is_flat_section (Node ''TOC'' x cs)"
  by (simp add: is_flat_section_def startswith_def)

text \<open>
  C7. The collapse pass is idempotent: run on its own output it changes nothing, since
  the synthetic node's marker \<open>"TOC"\<close> does not start with \<open>"Section"\<close>.
\<close>

theorem collapse_idempotent:
  "collapse_table_of_contents (collapse_table_of_contents ns) = collapse_table_of_contents ns"
proof (cases "takeWhile is_flat_section ns = []")
  case True
  then show ?thesis by (simp add: collapse_unfold)
next
  case False
  then obtain rest where r:
    "collapse_table_of_contents ns
       = Node ''TOC'' ''Table of Contents'' (takeWhile is_flat_section ns) # rest"
    by (simp add: collapse_unfold)
  have "takeWhile is_flat_section (collapse_table_of_contents ns) = []"
    by (simp add: r toc_node_not_flat)
  then show ?thesis
    by (subst collapse_unfold) simp
qed

text \<open>
  C5. When every root node qualifies the loop never reaches its \<open>break\<close>, so
  \<open>body_start_index\<close> is still 0 and the whole input follows the synthetic node: the
  one short Section entry is both the child of the TOC node and a root node.
\<close>

theorem collapse_all_flat_duplicates:
  "collapse_table_of_contents [Node ''Section 1.'' ''Section 1. Short summary.'' []]
     = [Node ''TOC'' ''Table of Contents'' [Node ''Section 1.'' ''Section 1. Short summary.'' []],
        Node ''Section 1.'' ''Section 1. Short summary.'' []]"
  by (simp add: collapse_table_of_contents_def is_flat_section_def startswith_def)

subsection \<open>Skipped levels\<close>

lemma skipped_level_state:
  "parse_state skipped_level_text =
     Inr \<lparr>heap = [Cell ''Section 3.'' ''Section 3. Title'' [1],
                  Cell ''(1)'' ''(1) First point'' [2, 3],
                  Cell ''(a)'' ''(a) Sub point'' [],
                  Cell ''(2)'' ''(2) Second point'' []],
          root = [0], stack = [0, 1, 3]\<rparr>"
  by code_simp

text \<open>
  C1. In the text \<open>skipped_level_text\<close> the paragraph \<open>(2)\<close> follows \<open>(a)\<close>. When it
  arrives the stack holds three nodes, so one is popped, and \<open>(2)\<close>, of level 3,
  becomes a child of \<open>(1)\<close>, of level 3 as well.
\<close>

theorem skipped_level_nests_siblings:
  "structure_of skipped_level_text =
     Inr [Node ''Section 3.'' ''Section 3. Title''
            [Node ''(1)'' ''(1) First point''
               [Node ''(a)'' ''(a) Sub point'' [], Node ''(2)'' ''(2) Second point'' []]]]
   \<and> classify_level ''(1)'' = Inr 3 \<and> classify_level ''(2)'' = Inr 3"
  by code_simp

text \<open>
  C2. At the marker \<open>(2)\<close>, of level 3, the stack holds the nodes \<open>Section 3.\<close>,
  \<open>(1)\<close> and \<open>(a)\<close>, at the addresses 0, 1 and 2. The loop pops while the stack has
  at least 3 entries: it pops \<open>(a)\<close> and leaves \<open>(1)\<close>, whose level is 3, on the
  stack. After the push the stack holds \<open>(1)\<close> and \<open>(2)\<close>, both of level 3.
\<close>

theorem skipped_level_stack:
  "pop_while 3 [0, 1, 2] = Inr [0, 1]
   \<and> map_sum id stack (parse_state skipped_level_text) = Inr [0, 1, 3]
   \<and> map_sum id (\<lambda>st. map (\<lambda>a. classify_level (c_marker (heap st ! a))) (stack st))
        (parse_state skipped_level_text) = Inr [Inr 1, Inr 3, Inr 3]"
  by (simp add: skipped_level_state) code_simp

subsection \<open>Scenario A\<close>

lemma set_dropWhile_subset: "set (dropWhile P xs) \<subseteq> set xs"
  by (induction xs) auto

lemma hyphen_match_needs_hyphen:
  assumes "hyphen_match s = Some x"
  shows "CHR ''-'' \<in> set s"
proof -
  from assms obtain r1 r2 where r1: "many1 is_word s = Some r1"
    and r2: "lit [CHR ''-'', CHR 0x0A] r1 = Some r2"
    by (auto simp: hyphen_match_def split: option.splits)
  from r2 have "CHR ''-'' \<in> set r1"
    by (cases r1) (auto simp: lit_def startswith_def split: if_splits)
  moreover from r1 have "set r1 \<subseteq> set s"
    using set_dropWhile_subset [of is_word "tl s"]
    by (cases s) (auto simp: many1_def split: if_splits)
  ultimately show ?thesis by blast
qed

lemma dehyphenate_no_hyphen: "CHR ''-'' \<notin> set s \<Longrightarrow> dehyphenate s = s"
proof (induction s)
  case Nil
  have "hyphen_match [] = None" by (simp add: hyphen_match_def many1_def)
  then show ?case by (subst dehyphenate.simps) simp
next
  case (Cons c cs)
  have "hyphen_match (c # cs) = None"
    using hyphen_match_needs_hyphen [of "c # cs"] Cons.prems by (cases "hyphen_match (c # cs)") auto
  then show ?case using Cons by (subst dehyphenate.simps) simp
qed

text \<open>
  The normalized text of scenario A: each of the three lines starts a paragraph, and
  \<open>(1)\<close> and \<open>(a)\<close> stay inside the line of Section 3.
\<close>

lemma scenario_A_normalized:
  "normalize_text scenario_A =
     ''Section 1. Short summary.\<newline>\<newline>Section 2. Another short one.\<newline>\<newline>Section 3. ''
       @ replicate 250 CHR ''x'' @ '' (1) First point (a) Sub point.''"
proof -
  have "CHR ''-'' \<notin> set scenario_A" by (simp add: scenario_A_def)
  then have d: "dehyphenate scenario_A = scenario_A" by (rule dehyphenate_no_hyphen)
  show ?thesis unfolding normalize_text_def d by code_simp
qed

lemma scenario_A_structure:
  "structure_of
     (''Section 1. Short summary.\<newline>\<newline>Section 2. Another short one.\<newline>\<newline>Section 3. ''
        @ replicate 250 CHR ''x'' @ '' (1) First point (a) Sub point.'') =
   Inr [Node ''TOC'' ''Table of Contents''
          [Node ''Section 1.'' ''Section 1. Short summary.'' [],
           Node ''Section 2.'' ''Section 2. Another short one.'' []],
        Node ''Section 3.''
          (''Section 3. '' @ replicate 250 CHR ''x'' @ '' (1) First point (a) Sub point.'') []]"
  by code_simp

lemma scenario_A_result:
  "process scenario_A =
   Inr [Node ''TOC'' ''Table of Contents''
          [Node ''Section 1.'' ''Section 1. Short summary.'' [],
           Node ''Section 2.'' ''Section 2. Another short one.'' []],
        Node ''Section 3.''
          (''Section 3. '' @ replicate 250 CHR ''x'' @ '' (1) First point (a) Sub point.'') []]"
  unfolding process_def scenario_A_normalized by (rule scenario_A_structure)

text \<open>
  C3, as the code has it. On scenario A the pipeline returns the TOC node with the
  children Section 1 and Section 2, followed by one node for Section 3 that has no
  children: \<open>(1)\<close> and \<open>(a)\<close> are not at the start of a line, so they are no markers,
  and their words are part of the text of Section 3.
\<close>

theorem scenario_A_section_3_is_flat:
  "process scenario_A =
   Inr [Node ''TOC'' ''Table of Contents''
          [Node ''Section 1.'' ''Section 1. Short summary.'' [],
           Node ''Section 2.'' ''Section 2. Another short one.'' []],
        Node ''Section 3.''
          (''Section 3. '' @ replicate 250 CHR ''x'' @ '' (1) First point (a) Sub point.'') []]"
  by (rule scenario_A_result)

text \<open>
  C3, as the specification states it, fails: the result has no child \<open>(1)\<close> under
  Section 3.
\<close>

theorem scenario_A_counterexample:
  "\<not> scenario_A_expected (process scenario_A)"
  by (simp add: scenario_A_result scenario_A_expected_def)

subsection \<open>The patterns\<close>

lemma lit_Some: "lit p s = Some r \<longleftrightarrow> s = p @ r"
  by (auto simp: lit_def startswith_def) (metis append_take_drop_id)

lemma one_of_Some: "one_of P s = Some r \<longleftrightarrow> (\<exists>c. s = c # r \<and> P c)"
  by (cases s) (auto simp: one_of_def)

lemma many1_Some: "many1 P s = Some r \<longleftrightarrow> (\<exists>c cs. s = c # cs \<and> P c \<and> dropWhile P cs = r)"
  by (cases s) (auto simp: many1_def)

lemma many_Some: "many P s = Some r \<longleftrightarrow> r = dropWhile P s"
  by (auto simp: many_def)

lemma dropWhile_eq_single:
  "dropWhile P xs = [y] \<longleftrightarrow> (\<not> P y \<and> list_all P (butlast xs) \<and> xs \<noteq> [] \<and> last xs = y)"
proof (induction xs)
  case Nil
  then show ?case by simp
next
  case (Cons x xs)
  then show ?case by (cases xs) (auto split: if_splits)
qed

lemma not_digit_paren: "\<not> is_digit CHR '')''"
  by (simp add: is_digit_def)

lemma fullmatch_letter: "fullmatch rx_letter t \<longleftrightarrow> shape_letter t"
  by (auto simp: fullmatch_def rx_letter_def shape_letter_def bind_eq_Some_conv lit_Some one_of_Some
      split: list.splits)

lemma fullmatch_lower: "fullmatch rx_lower t \<longleftrightarrow> shape_lower t"
  by (auto simp: fullmatch_def rx_lower_def shape_lower_def bind_eq_Some_conv lit_Some one_of_Some
      split: list.splits)

lemma fullmatch_number: "fullmatch rx_number t \<longleftrightarrow> shape_number t"
proof
  assume "fullmatch rx_number t"
  then show "shape_number t"
    by (auto simp: fullmatch_def rx_number_def shape_number_def bind_eq_Some_conv lit_Some
        many1_Some dropWhile_eq_single not_digit_paren)
next
  assume "shape_number t"
  then obtain r where t: "t = CHR ''('' # r" and r: "r \<noteq> []" "last r = CHR '')''"
    "butlast r \<noteq> []" "list_all is_digit (butlast r)"
    by (cases t) (auto simp: shape_number_def)
  from r obtain c cs where cs: "r = c # cs" "cs \<noteq> []"
    by (cases r) (auto split: if_splits)
  with r have "is_digit c" "list_all is_digit (butlast cs)" "last cs = CHR '')''"
    by auto
  then show "fullmatch rx_number t"
    using cs t
    by (auto simp: fullmatch_def rx_number_def bind_eq_Some_conv lit_Some many1_Some
        dropWhile_eq_single not_digit_paren)
qed

subsection \<open>classify_level\<close>

lemma classify_level_eq:
  "classify_level m =
     Inr (if startswith (strip m) ''Section'' then 1
          else if shape_letter (strip m) then 2
          else if shape_number (strip m) then 3
          else if shape_lower (strip m) then 4 else 0)"
  by (simp add: classify_level_def fullmatch_letter fullmatch_number fullmatch_lower)

text \<open>
  C6, as the code has it. For a marker that, trimmed, has none of the four shapes,
  \<open>classify_level\<close> returns the level 0; it raises nothing.
\<close>

theorem classify_level_default:
  "\<not> known_shape (strip m) \<Longrightarrow> classify_level m = Inr 0"
  by (simp add: classify_level_eq known_shape_def)

theorem classify_level_default_witness:
  "\<not> known_shape (strip ''Article 5.'') \<and> classify_level ''Article 5.'' = Inr 0"
proof -
  have h: "\<not> known_shape (strip ''Article 5.'')"
    by (simp add: known_shape_def strip_def lstrip_def rstrip_def is_space_def startswith_def
        shape_letter_def shape_number_def shape_lower_def)
  show ?thesis using h classify_level_default [OF h] by simp
qed

text \<open>
  C6, as the specification states it, fails: the string \<open>"TOC"\<close> has none of the four
  shapes and \<open>classify_level\<close> returns a level for it.
\<close>

theorem classify_level_counterexample:
  "\<not> known_shape ''TOC'' \<and> \<not> isl (classify_level ''TOC'')"
  by (simp add: known_shape_def classify_level_eq strip_def lstrip_def rstrip_def is_space_def
      startswith_def shape_letter_def shape_number_def shape_lower_def)

subsection \<open>De-hyphenation\<close>

lemma hyphen_match_needs_newline:
  assumes "hyphen_match s = Some x"
  shows "CHR 0x0A \<in> set s"
proof -
  from assms obtain r1 r2 where r1: "many1 is_word s = Some r1"
    and r2: "lit [CHR ''-'', CHR 0x0A] r1 = Some r2"
    by (auto simp: hyphen_match_def split: option.splits)
  from r2 have "CHR 0x0A \<in> set r1"
    by (simp add: lit_Some)
  moreover from r1 have "set r1 \<subseteq> set s"
    using set_dropWhile_subset [of is_word "tl s"]
    by (auto simp: many1_Some)
  ultimately show ?thesis by blast
qed

lemma dehyphenate_no_newline: "CHR 0x0A \<notin> set s \<Longrightarrow> dehyphenate s = s"
proof (induction s)
  case Nil
  have "hyphen_match [] = None" by (simp add: hyphen_match_def many1_def)
  then show ?case by (subst dehyphenate.simps) simp
next
  case (Cons c cs)
  have "hyphen_match (c # cs) = None"
    using hyphen_match_needs_newline [of "c # cs"] Cons.prems by (cases "hyphen_match (c # cs)") auto
  then show ?case using Cons by (subst dehyphenate.simps) simp
qed

lemma not_word_hyphen: "\<not> is_word CHR ''-''"
  by (simp add: is_word_def is_lower_def is_upper_def is_digit_def)

lemma not_word_newline: "\<not> is_word CHR 0x0A"
  by (simp add: is_word_def is_lower_def is_upper_def is_digit_def)

lemma dehyphenate_None: "hyphen_match (c # cs) = None \<Longrightarrow> dehyphenate (c # cs) = c # dehyphenate cs"
  by (subst dehyphenate.simps) simp

lemma dehyphenate_head:
  "dehyphenate ([CHR ''-'', CHR 0x0A] @ v) = [CHR ''-'', CHR 0x0A] @ dehyphenate v"
proof -
  have "hyphen_match (CHR ''-'' # CHR 0x0A # v) = None" "hyphen_match (CHR 0x0A # v) = None"
    by (simp_all add: hyphen_match_def many1_def not_word_hyphen not_word_newline)
  then show ?thesis by (simp add: dehyphenate_None)
qed

text \<open>Scenario B of the specification.\<close>

lemma scenario_B: "normalize_text ''the consti-\<newline>tution is'' = ''the constitution is''"
  by code_simp

subsection \<open>Trimming\<close>









subsection \<open>The shape of a match\<close>




lemma many1_SomeD:
  assumes "many1 P s = Some r"
  obtains p where "s = p @ r" "p \<noteq> []" "list_all P p" "r = [] \<or> \<not> P (hd r)"
proof -
  from assms obtain c cs where s: "s = c # cs" "P c" "dropWhile P cs = r"
    by (auto simp: many1_Some)
  have "s = (c # takeWhile P cs) @ r" using s takeWhile_dropWhile_id [of P cs] by simp
  moreover have "list_all P (c # takeWhile P cs)"
    using s by (auto simp: list_all_iff dest: set_takeWhileD)
  moreover have "r = [] \<or> \<not> P (hd r)"
    using s(3) hd_dropWhile [of P cs] by auto
  ultimately show ?thesis using that by blast
qed













subsection \<open>The list of matches\<close>




subsection \<open>The store\<close>

























subsection \<open>Markers and texts of the nodes\<close>





subsection \<open>The spans of the nodes\<close>









subsection \<open>De-hyphenation of any text\<close>

lemma starts_word_iff: "starts_word s \<longleftrightarrow> s \<noteq> [] \<and> is_word (hd s)"
  by (cases s) (simp_all add: starts_word_def)

lemma ends_word_iff: "ends_word s \<longleftrightarrow> s \<noteq> [] \<and> is_word (last s)"
  by (cases s rule: rev_cases) (simp_all add: ends_word_def starts_word_def)

lemma ends_hyphenated_iff:
  "ends_hyphenated p \<longleftrightarrow> (\<exists>q. p = q @ [CHR ''-'', CHR 0x0A] \<and> ends_word q)"
proof
  assume "ends_hyphenated p"
  then obtain r where "rev p = CHR 0x0A # CHR ''-'' # r" "starts_word r"
    by (auto simp: ends_hyphenated_def split: list.splits)
  then have "p = rev r @ [CHR ''-'', CHR 0x0A]" "ends_word (rev r)"
    by (simp_all add: ends_word_def rev_swap [symmetric])
  then show "\<exists>q. p = q @ [CHR ''-'', CHR 0x0A] \<and> ends_word q" by blast
next
  assume "\<exists>q. p = q @ [CHR ''-'', CHR 0x0A] \<and> ends_word q"
  then show "ends_hyphenated p"
    by (auto simp: ends_hyphenated_def ends_word_def)
qed

lemma cut_ok_suffix:
  assumes "cut_ok (pre @ q) x" and "q \<noteq> []"
  shows "cut_ok q x"
proof -
  have 1: "ends_word q \<Longrightarrow> ends_word (pre @ q)"
    using assms(2) by (simp add: ends_word_iff)
  have 2: "ends_word (butlast q) \<Longrightarrow> ends_word (butlast (pre @ q))"
    using assms(2) by (simp add: ends_word_iff butlast_append)
  have 3: "ends_hyphenated q \<Longrightarrow> ends_hyphenated (pre @ q)"
    unfolding ends_hyphenated_iff
  proof -
    assume "\<exists>q'. q = q' @ [CHR ''-'', CHR 0x0A] \<and> ends_word q'"
    then obtain q' where "q = q' @ [CHR ''-'', CHR 0x0A]" "ends_word q'" by blast
    then have "pre @ q = (pre @ q') @ [CHR ''-'', CHR 0x0A]" "ends_word (pre @ q')"
      by (simp_all add: ends_word_iff)
    then show "\<exists>q'. pre @ q = q' @ [CHR ''-'', CHR 0x0A] \<and> ends_word q'" by blast
  qed
  show ?thesis
    using assms 1 2 3 unfolding cut_ok_def by auto
qed

lemma while_append:
  "(list_all P s \<Longrightarrow> x = [] \<or> \<not> P (hd x)) \<Longrightarrow>
     takeWhile P (s @ x) = takeWhile P s \<and> dropWhile P (s @ x) = dropWhile P s @ x"
proof (induction s)
  case Nil
  then show ?case by (cases x) auto
next
  case (Cons c s)
  then show ?case by auto
qed

lemma many1_alt: "many1 P s = (if s \<noteq> [] \<and> P (hd s) then Some (dropWhile P s) else None)"
  by (cases s) (simp_all add: many1_def)

lemma lit_append:
  "length l \<le> length q \<Longrightarrow> lit l (q @ x) = map_option (\<lambda>r. r @ x) (lit l q)"
  by (simp add: lit_def startswith_def)


text \<open>
  Where \<open>p\<close> can be cut from \<open>x\<close>, the pattern matches at the start of \<open>p @ x\<close> as
  it does at the start of \<open>p\<close>, and the match ends inside \<open>p\<close>.
\<close>

lemma hyphen_match_cut:
  assumes ok: "cut_ok p x" and ne: "p \<noteq> []"
  shows "hyphen_match (p @ x) = map_option (\<lambda>(r, rest). (r, rest @ x)) (hyphen_match p)"
proof (cases "is_word (hd p)")
  case False
  then show ?thesis using ne by (cases p) (simp_all add: hyphen_match_def many1_def)
next
  case hw: True
  define q where "q = dropWhile is_word p"
  define w where "w = takeWhile is_word p"
  have p: "p = w @ q" by (simp add: w_def q_def)
  have w: "w \<noteq> []" "is_word (last w)"
    using hw ne unfolding w_def
    by (cases p; simp) (metis last_in_set set_takeWhileD takeWhile_eq_Nil_iff hw ne)
  have c1: "list_all is_word s \<Longrightarrow> x = [] \<or> \<not> is_word (hd x)" if "s \<noteq> []" "\<exists>pre. p = pre @ s" for s
  proof -
    assume a: "list_all is_word s"
    from that a have "ends_word p" by (auto simp: ends_word_iff list_all_iff)
    with ok show ?thesis by (auto simp: cut_ok_def starts_word_iff)
  qed
  have wp: "takeWhile is_word (p @ x) = w" "dropWhile is_word (p @ x) = q @ x"
    using while_append [of is_word p x] c1 [of p] ne by (auto simp: w_def q_def)
  have m1: "many1 is_word (p @ x) = Some (q @ x)" "many1 is_word p = Some q"
    using hw ne wp by (simp_all add: many1_alt q_def)
  show ?thesis
  proof (cases "length q < 2")
    case short: True
    have alone: "lit [CHR ''-'', CHR 0x0A] q = None"
      using short by (auto simp: lit_def startswith_def)
    have "many1 is_word r2 = None" if r2: "lit [CHR ''-'', CHR 0x0A] (q @ x) = Some r2" for r2
    proof (cases q)
      case Nil
      then have "ends_word p" using p w by (simp add: ends_word_iff)
      moreover from r2 Nil have "x = [CHR ''-'', CHR 0x0A] @ r2" by (simp add: lit_Some)
      ultimately have "\<not> starts_word r2" using ok by (auto simp: cut_ok_def startswith_def)
      then show ?thesis by (simp add: many1_alt starts_word_iff)
    next
      case (Cons y q')
      with short have q: "q = [y]" by simp
      with r2 have y: "y = CHR ''-''" "x = CHR 0x0A # r2" by (simp_all add: lit_Some)
      have "last p = CHR ''-''" "ends_word (butlast p)"
        using p q y w by (simp_all add: ends_word_iff butlast_append)
      then have "\<not> starts_word r2"
        using ok ne y by (auto simp: cut_ok_def startswith_def)
      then show ?thesis by (simp add: many1_alt starts_word_iff)
    qed
    then have "hyphen_match (p @ x) = None"
      unfolding hyphen_match_def m1 by (simp split: option.splits)
    moreover have "hyphen_match p = None"
      unfolding hyphen_match_def m1 using alone by simp
    ultimately show ?thesis by simp
  next
    case long: False
    then have la: "lit [CHR ''-'', CHR 0x0A] (q @ x)
        = map_option (\<lambda>r. r @ x) (lit [CHR ''-'', CHR 0x0A] q)"
      by (intro lit_append) simp
    show ?thesis
    proof (cases "lit [CHR ''-'', CHR 0x0A] q")
      case None
      then show ?thesis using la by (simp add: hyphen_match_def m1)
    next
      case (Some q2)
      then have q: "q = [CHR ''-'', CHR 0x0A] @ q2" by (simp add: lit_Some)
      have lx: "lit [CHR ''-'', CHR 0x0A] (q @ x) = Some (q2 @ x)"
        using la Some by simp
      have mx: "many1 is_word (q2 @ x) = map_option (\<lambda>r. r @ x) (many1 is_word q2)"
      proof (cases "q2 = []")
        case True
        then have "ends_hyphenated p"
          using p q w by (auto simp: ends_hyphenated_iff ends_word_iff)
        then have "\<not> starts_word x" using ok by (simp add: cut_ok_def)
        then show ?thesis using True by (simp add: many1_alt starts_word_iff)
      next
        case q2: False
        have "\<exists>pre. p = pre @ q2" using p q by (metis append.assoc)
        from while_append [of is_word q2 x] c1 [OF q2 this]
        have "dropWhile is_word (q2 @ x) = dropWhile is_word q2 @ x" by auto
        then show ?thesis using q2 by (simp add: many1_alt)
      qed
      have tx: "takeWhile is_word (q2 @ x) = takeWhile is_word q2" if "many1 is_word q2 \<noteq> None"
      proof -
        from that have q2: "q2 \<noteq> []" by (auto simp: many1_def)
        have "\<exists>pre. p = pre @ q2" using p q by (metis append.assoc)
        from while_append [of is_word q2 x] c1 [OF q2 this] show ?thesis by auto
      qed
      show ?thesis
      proof (cases "many1 is_word q2")
        case None
        then show ?thesis by (simp add: hyphen_match_def m1 lx Some mx)
      next
        case r3: (Some r3)
        then show ?thesis using tx wp by (simp add: hyphen_match_def m1 lx Some mx w_def)
      qed
    qed
  qed
qed

lemma hyphen_match_rest:
  assumes "hyphen_match p = Some (r, rest)"
  shows "\<exists>pre. p = pre @ rest \<and> pre \<noteq> []"
proof -
  from assms obtain r1 r2 where a: "many1 is_word p = Some r1"
    "lit [CHR ''-'', CHR 0x0A] r1 = Some r2" "many1 is_word r2 = Some rest"
    by (auto simp: hyphen_match_def split: option.splits)
  from a(1) obtain w1 where "p = w1 @ r1" by (rule many1_SomeD)
  moreover from a(3) obtain w2 where "r2 = w2 @ rest" by (rule many1_SomeD)
  moreover from a(2) have "r1 = [CHR ''-'', CHR 0x0A] @ r2" by (simp add: lit_Some)
  ultimately have "p = (w1 @ [CHR ''-'', CHR 0x0A] @ w2) @ rest" by simp
  then show ?thesis by blast
qed

lemma dehyphenate_cut: "cut_ok p x \<Longrightarrow> dehyphenate (p @ x) = dehyphenate p @ dehyphenate x"
proof (induction p rule: length_induct)
  case (1 p)
  show ?case
  proof (cases p)
    case Nil
    have "dehyphenate [] = []"
      by (subst dehyphenate.simps) (simp add: hyphen_match_def many1_def)
    with Nil show ?thesis by simp
  next
    case (Cons c p')
    then have ne: "p \<noteq> []" by simp
    note hm = hyphen_match_cut [OF "1.prems" ne]
    show ?thesis
    proof (cases "hyphen_match p")
      case None
      have ok': "cut_ok p' x" if "p' \<noteq> []"
        using cut_ok_suffix [of "[c]" p' x] "1.prems" Cons that by simp
      have ih: "dehyphenate (p' @ x) = dehyphenate p' @ dehyphenate x"
      proof (cases "p' = []")
        case True
        have "dehyphenate [] = []"
          by (subst dehyphenate.simps) (simp add: hyphen_match_def many1_def)
        with True show ?thesis by simp
      next
        case False
        with "1.IH" ok' Cons show ?thesis by simp
      qed
      have "dehyphenate (p @ x) = c # dehyphenate (p' @ x)"
        using hm None Cons by (subst dehyphenate.simps) simp
      moreover have "dehyphenate p = c # dehyphenate p'"
        using None Cons by (subst dehyphenate.simps) simp
      ultimately show ?thesis using ih by simp
    next
      case (Some a)
      obtain r rest where a: "a = (r, rest)" by (cases a)
      from hyphen_match_rest [OF Some [unfolded a]]
      obtain pre where pre: "p = pre @ rest" "pre \<noteq> []" by blast
      have ih: "dehyphenate (rest @ x) = dehyphenate rest @ dehyphenate x"
      proof (cases "rest = []")
        case True
        have "dehyphenate [] = []"
          by (subst dehyphenate.simps) (simp add: hyphen_match_def many1_def)
        with True show ?thesis by simp
      next
        case False
        have "cut_ok rest x" using cut_ok_suffix [of pre rest x] "1.prems" pre False by simp
        moreover have "length rest < length p" using pre by simp
        ultimately show ?thesis using "1.IH" by blast
      qed
      have "dehyphenate (p @ x) = r @ dehyphenate (rest @ x)"
        using hm Some a pre by (subst dehyphenate.simps) simp
      moreover have "dehyphenate p = r @ dehyphenate rest"
        using Some a pre by (subst dehyphenate.simps) simp
      ultimately show ?thesis using ih by simp
    qed
  qed
qed

lemma dehyphenate_join:
  assumes "w \<noteq> []" "list_all is_word w" "v \<noteq> []" "list_all is_word v" "\<not> starts_word t"
  shows "dehyphenate (w @ [CHR ''-'', CHR 0x0A] @ v @ t) = w @ v @ dehyphenate t"
proof -
  let ?s = "w @ [CHR ''-'', CHR 0x0A] @ v @ t"
  have t: "t = [] \<or> \<not> is_word (hd t)" using assms(5) by (auto simp: starts_word_iff)
  have 1: "takeWhile is_word ?s = w" "dropWhile is_word ?s = [CHR ''-'', CHR 0x0A] @ v @ t"
    using while_append [of is_word w "[CHR ''-'', CHR 0x0A] @ v @ t"] assms(2)
    by (simp_all add: not_word_hyphen list_all_iff)
  have 2: "takeWhile is_word (v @ t) = v" "dropWhile is_word (v @ t) = t"
    using while_append [of is_word v t] assms(4) t by (auto simp: list_all_iff)
  have hw: "is_word (hd ?s)" "is_word (hd (v @ t))"
    using assms(1-4) by (cases w; cases v; simp)+
  have "hyphen_match ?s = Some (w @ v, t)"
    unfolding hyphen_match_def using 1 2 hw assms(1,3)
    by (simp add: many1_alt lit_def startswith_def)
  then show ?thesis using assms(1) by (subst dehyphenate.simps) simp
qed

lemma dehyphenate_joined:
  assumes "w \<noteq> []" "list_all is_word w" "v \<noteq> []" "list_all is_word v" "\<not> starts_word t"
    and "\<not> ends_word p" "\<not> ends_hyphenated p"
  shows "dehyphenate (p @ w @ [CHR ''-'', CHR 0x0A] @ v @ t) = dehyphenate p @ w @ v @ dehyphenate t"
proof -
  let ?x = "w @ [CHR ''-'', CHR 0x0A] @ v @ t"
  have "hd ?x \<noteq> CHR 0x0A" using assms(1,2) not_word_newline by (cases w) auto
  then have "\<not> startswith ?x [CHR 0x0A]" using assms(1) by (cases w) (auto simp: startswith_def)
  then have "cut_ok p ?x" using assms(6,7) by (simp add: cut_ok_def)
  then have "dehyphenate (p @ ?x) = dehyphenate p @ dehyphenate ?x" by (rule dehyphenate_cut)
  moreover have "dehyphenate ?x = w @ v @ dehyphenate t"
    using assms(1-5) by (rule dehyphenate_join)
  ultimately show ?thesis by simp
qed

lemma dehyphenate_kept:
  assumes "\<not> (ends_word a \<and> starts_word b)"
  shows "dehyphenate (a @ [CHR ''-'', CHR 0x0A] @ b)
           = dehyphenate a @ [CHR ''-'', CHR 0x0A] @ dehyphenate b"
proof -
  let ?x = "[CHR ''-'', CHR 0x0A] @ b"
  have "cut_ok a ?x"
    using assms by (auto simp: cut_ok_def starts_word_iff not_word_hyphen startswith_def)
  then have "dehyphenate (a @ ?x) = dehyphenate a @ dehyphenate ?x" by (rule dehyphenate_cut)
  then show ?thesis using dehyphenate_head [of b] by simp
qed

text \<open>
  C8, as the code has it, for a hyphen followed by a newline anywhere in a text.

  Where the maximal runs \<open>w\<close> and \<open>v\<close> of word characters of \<open>re\<close> (letters,
  digits or the underscore) stand on the two sides, and \<open>w\<close> does not itself follow a
  word character, a hyphen and a newline, the hyphen and the newline are removed and
  the rest of the text is de-hyphenated on its own, before \<open>w\<close> and after \<open>v\<close>. Runs of
  digits are joined as runs of letters are.

  Where the character before the hyphen or the character after the newline is missing
  or is no word character, the hyphen and the newline stay, and the text is
  de-hyphenated on its own before and after them.

  Where a second hyphen and newline follow the run \<open>w2\<close> that has just been joined to
  \<open>w1\<close>, they stay, whatever comes after them: the substitution goes from left to right
  and its matches do not overlap, so \<open>w2\<close> is used up.
\<close>

theorem dehyphenate_pair:
  "(w \<noteq> [] \<and> list_all is_word w \<and> v \<noteq> [] \<and> list_all is_word v \<and> \<not> starts_word t
      \<and> \<not> ends_word p \<and> \<not> ends_hyphenated p
    \<longrightarrow> dehyphenate (p @ w @ [CHR ''-'', CHR 0x0A] @ v @ t) = dehyphenate p @ w @ v @ dehyphenate t)
   \<and> (\<not> (ends_word a \<and> starts_word b)
    \<longrightarrow> dehyphenate (a @ [CHR ''-'', CHR 0x0A] @ b)
          = dehyphenate a @ [CHR ''-'', CHR 0x0A] @ dehyphenate b)
   \<and> (w1 \<noteq> [] \<and> list_all is_word w1 \<and> w2 \<noteq> [] \<and> list_all is_word w2
      \<and> \<not> ends_word q \<and> \<not> ends_hyphenated q
    \<longrightarrow> dehyphenate (q @ w1 @ [CHR ''-'', CHR 0x0A] @ w2 @ [CHR ''-'', CHR 0x0A] @ s)
          = dehyphenate q @ w1 @ w2 @ [CHR ''-'', CHR 0x0A] @ dehyphenate s)"
proof (intro conjI impI)
  assume "w \<noteq> [] \<and> list_all is_word w \<and> v \<noteq> [] \<and> list_all is_word v \<and> \<not> starts_word t
      \<and> \<not> ends_word p \<and> \<not> ends_hyphenated p"
  then show "dehyphenate (p @ w @ [CHR ''-'', CHR 0x0A] @ v @ t)
      = dehyphenate p @ w @ v @ dehyphenate t"
    by (intro dehyphenate_joined) simp_all
next
  assume "\<not> (ends_word a \<and> starts_word b)"
  then show "dehyphenate (a @ [CHR ''-'', CHR 0x0A] @ b)
      = dehyphenate a @ [CHR ''-'', CHR 0x0A] @ dehyphenate b"
    by (rule dehyphenate_kept)
next
  assume h: "w1 \<noteq> [] \<and> list_all is_word w1 \<and> w2 \<noteq> [] \<and> list_all is_word w2
      \<and> \<not> ends_word q \<and> \<not> ends_hyphenated q"
  have "\<not> starts_word ([CHR ''-'', CHR 0x0A] @ s)"
    by (simp add: starts_word_def not_word_hyphen)
  with h have "dehyphenate (q @ w1 @ [CHR ''-'', CHR 0x0A] @ w2 @ ([CHR ''-'', CHR 0x0A] @ s))
      = dehyphenate q @ w1 @ w2 @ dehyphenate ([CHR ''-'', CHR 0x0A] @ s)"
    by (intro dehyphenate_joined) simp_all
  then show "dehyphenate (q @ w1 @ [CHR ''-'', CHR 0x0A] @ w2 @ [CHR ''-'', CHR 0x0A] @ s)
      = dehyphenate q @ w1 @ w2 @ [CHR ''-'', CHR 0x0A] @ dehyphenate s"
    using dehyphenate_head [of s] by simp
qed

theorem dehyphenate_pair_witness:
  "list_all is_word ''consti'' \<and> list_all is_word ''tution'' \<and> \<not> starts_word '' is''
   \<and> \<not> ends_word ''the '' \<and> \<not> ends_hyphenated ''the ''
   \<and> dehyphenate ''the consti-\<newline>tution is'' = ''the constitution is''
   \<and> \<not> (ends_word ''end.'' \<and> starts_word ''Next'')
   \<and> dehyphenate ''end.-\<newline>Next'' = ''end.-\<newline>Next''
   \<and> list_all is_word ''a'' \<and> list_all is_word ''b'' \<and> \<not> ends_word [] \<and> \<not> ends_hyphenated []
   \<and> dehyphenate ''a-\<newline>b-\<newline>c'' = ''ab-\<newline>c''"
proof -
  have h: "list_all is_word ''consti''" "list_all is_word ''tution''" "\<not> starts_word '' is''"
    "\<not> ends_word ''the ''" "\<not> ends_hyphenated ''the ''" "\<not> ends_word ''end.''"
    "list_all is_word ''a''" "list_all is_word ''b''" "\<not> ends_word []" "\<not> ends_hyphenated []"
    by (simp_all add: starts_word_def ends_word_def ends_hyphenated_def is_word_def is_lower_def
        is_upper_def is_digit_def)
  have d: "dehyphenate ''the '' = ''the ''" "dehyphenate '' is'' = '' is''"
    "dehyphenate ''end.'' = ''end.''" "dehyphenate ''Next'' = ''Next''"
    "dehyphenate [] = []" "dehyphenate ''c'' = ''c''"
    by (simp_all add: dehyphenate_no_newline)
  from dehyphenate_pair [where w = "''consti''" and v = "''tution''" and t = "'' is''"
      and p = "''the ''" and a = "''end.''" and b = "''Next''"
      and ?w1.0 = "''a''" and ?w2.0 = "''b''" and q = "[]" and s = "''c''"] h d
  show ?thesis by simp
qed

text \<open>
  C8, as the specification states it, fails twice: a hyphen and a newline between two
  tokens made of digits are removed, and in a chain of three words the second pair, with
  word characters on both sides, stays.
\<close>

theorem dehyphenate_counterexample:
  "dehyphenate ''12-\<newline>34'' = ''1234'' \<and> normalize_text ''12-\<newline>34'' = ''1234''
   \<and> dehyphenate ''a-\<newline>b-\<newline>c'' = ''ab-\<newline>c''"
  by code_simp

subsection \<open>Markers inside a line\<close>












text \<open>Scenario C of the specification.\<close>

lemma scenario_C:
  "finditer ''See subsection (1) of Section 4 for details.'' = []"
  by code_simp

end
